theory Spec2Isabelle
  imports Main
begin

section \<open>Data model of tickler.go\<close>

text \<open>
  Job names are Go strings. A job body \<open>func() error\<close> is modelled by its outcome: a
  function from \<open>unit\<close> to an optional error message, \<open>None\<close> being \<open>nil\<close>. The
  model assumes that the body of a request is not a nil function value.
\<close>

type_synonym JobName = string
type_synonym error = string
type_synonym BackgroundFn = "unit \<Rightarrow> error option"

text \<open>\<open>status\<close> with its three \<open>iota\<close> constants.\<close>

datatype status = statusUndefined | statusSuccess | statusFailure

definition defaultRequestLimit :: nat where
  "defaultRequestLimit = 100"

text \<open>
  A \<open>context.Context\<close>: the background context, which is never done, or a child made by
  \<open>context.WithCancel\<close>, which is done as soon as it or one of its ancestors is cancelled.
\<close>

datatype Context = Background | WithCancel Context bool

fun ctx_Done :: "Context \<Rightarrow> bool" where
  "ctx_Done Background = False"
| "ctx_Done (WithCancel parent cancelled) = (cancelled \<or> ctx_Done parent)"

text \<open>The cancel function that \<open>WithCancel\<close> returns; the background context has none.\<close>

fun cancel :: "Context \<Rightarrow> Context option" where
  "cancel Background = None"
| "cancel (WithCancel parent cancelled) = Some (WithCancel parent True)"

type_synonym BackgroundFnWithContext = "Context \<Rightarrow> error option"

text \<open>
  A buffered channel \<open>make(chan T, cap)\<close> is its buffer and its capacity. An unbuffered
  channel \<open>make(chan T)\<close> is only an identity: the address the allocation returned.
\<close>

record 'a chan =
  buf :: "'a list"
  cap :: nat

type_synonym chan_id = nat

definition make_chan :: "nat \<Rightarrow> 'a chan" where
  "make_chan n = \<lparr>buf = [], cap = n\<rparr>"

text \<open>\<open>select { case c <- v: ... default: }\<close>: \<open>None\<close> is the default branch.\<close>

definition try_send :: "'a \<Rightarrow> 'a chan \<Rightarrow> 'a chan option" where
  "try_send v c = (if length (buf c) < cap c then Some (c\<lparr>buf := buf c @ [v]\<rparr>) else None)"

text \<open>\<open><-c\<close> on a buffered channel: \<open>None\<close> when the receive would block.\<close>

definition recv :: "'a chan \<Rightarrow> ('a \<times> 'a chan) option" where
  "recv c = (case buf c of [] \<Rightarrow> None | v # vs \<Rightarrow> Some (v, c\<lparr>buf := vs\<rparr>))"

record eventOptions =
  waitFor :: "JobName list"
  ifSuccess :: "JobName list"
  ifFailure :: "JobName list"

text \<open>
  The three constructors of \<open>EventOption\<close>; \<open>apply\<close> is unexported, so the package's own
  options are the only ones.
\<close>

datatype EventOption =
  WaitForJobs "JobName list"
| IfSuccess "JobName list"
| IfFailure "JobName list"

fun apply_opt :: "EventOption \<Rightarrow> eventOptions \<Rightarrow> eventOptions" where
  "apply_opt (WaitForJobs jobNames) t = t\<lparr>waitFor := jobNames\<rparr>"
| "apply_opt (IfSuccess jobNames) t = t\<lparr>ifSuccess := jobNames\<rparr>"
| "apply_opt (IfFailure jobNames) t = t\<lparr>ifFailure := jobNames\<rparr>"

record Request =
  F :: BackgroundFn
  FC :: BackgroundFnWithContext
  RJob :: JobName

record Event =
  fnOpts :: eventOptions
  Job :: JobName
  f :: BackgroundFn
  ctx :: Context
  result :: status
  ch :: chan_id
  resultCh :: chan_id

text \<open>
  \<open>newEvent\<close>; \<open>n\<close> is the next free channel address, and the two \<open>make(chan ...)\<close> take
  \<open>n\<close> and \<open>n + 1\<close>. The options are applied in order to the zero \<open>eventOptions\<close>.
\<close>

definition zero_eventOptions :: eventOptions where
  "zero_eventOptions = \<lparr>waitFor = [], ifSuccess = [], ifFailure = []\<rparr>"

definition newEvent :: "chan_id \<Rightarrow> Context \<Rightarrow> Request \<Rightarrow> EventOption list \<Rightarrow> Event" where
  "newEvent n c request opts =
     \<lparr>fnOpts = fold apply_opt opts zero_eventOptions,
      Job = RJob request,
      f = F request,
      ctx = c,
      result = statusSuccess,
      ch = n,
      resultCh = Suc n\<rparr>"

subsection \<open>Goroutines\<close>

text \<open>
  Where a goroutine running \<open>process\<close> stands: in the wait loop (at its head or blocked in
  the \<open>select\<close>), inside the body \<open>event.f()\<close>, in the deferred \<open>removeJob\<close> (before the
  lock, in the first or the second \<open>range\<close> loop with the channels still to be served),
  or in the deferred \<open>replenish\<close> (before the receive from the semaphore, before
  \<open>tickleLoop\<close>).
\<close>

datatype phase =
  Waiting
| Running
| RemoveJobLock
| SendCh "chan_id list"
| SendRes "chan_id list"
| Replenish
| Tickle

text \<open>
  A worker is the event with the locals of \<open>process\<close>: \<open>cnt\<close> and the three fields of
  \<open>eventRes\<close>. Three history fields, which no step reads, record what happened:
  \<open>invoked\<close> is set when \<open>event.f()\<close> is called, \<open>received\<close> lists, for every value taken
  from \<open>event.resultCh\<close>, the name of the job that sent it and the value, and \<open>writes\<close>
  counts the assignments \<open>event.result = statusFailure\<close> that \<open>process\<close> has made.
\<close>

record worker = Event +
  cnt :: int
  SucceededEvents :: int
  FailedEvents :: int
  TotalEvents :: int
  pc :: phase
  invoked :: bool
  received :: "(JobName \<times> status) list"
  writes :: nat

text \<open>
  A goroutine running \<open>loop\<close>: about to enter the \<open>select\<close>, blocked in it (having read
  \<open>s.ctx.Done()\<close> on entry: the flag says whether that channel is closed), or in
  \<open>tryDequeue\<close> before the lock.
\<close>

datatype loop_pc = LoopTop | InSelect bool | InTryDequeue

subsection \<open>The scheduler\<close>

text \<open>
  The fields of \<open>Tickler\<close> (those of \<open>Options\<close> inlined; \<open>Options.Ctx\<close> is never set nor
  read), then the goroutines started so far and the next free channel address.
\<close>

record Tickler =
  mu :: bool
  s_ctx :: Context
  queue :: "Event list"
  Limit :: int
  sema :: "int chan"
  loopSignal :: "unit chan"
  currentJobs :: "JobName \<rightharpoonup> bool"
  jobsWaitFor :: "JobName \<rightharpoonup> chan_id list"
  s_resultCh :: "JobName \<rightharpoonup> chan_id list"
  loops :: "loop_pc list"
  workers :: "worker list"
  next_chan :: chan_id

definition New :: Tickler where
  "New =
     \<lparr>mu = False,
      s_ctx = Background,
      queue = [],
      Limit = 0,
      sema = make_chan defaultRequestLimit,
      loopSignal = make_chan defaultRequestLimit,
      currentJobs = Map.empty,
      jobsWaitFor = Map.empty,
      s_resultCh = Map.empty,
      loops = [],
      workers = [],
      next_chan = 0\<rparr>"

text \<open>Reading a map of slices at a missing key gives the nil slice.\<close>

definition slice_at :: "(JobName \<rightharpoonup> chan_id list) \<Rightarrow> JobName \<Rightarrow> chan_id list" where
  "slice_at m v = (case m v of None \<Rightarrow> [] | Some cs \<Rightarrow> cs)"

text \<open>\<open>for _, v := range names { m[v] = append(m[v], c) }\<close>\<close>

definition register :: "JobName list \<Rightarrow> chan_id \<Rightarrow> (JobName \<rightharpoonup> chan_id list) \<Rightarrow> (JobName \<rightharpoonup> chan_id list)" where
  "register names c m = fold (\<lambda>v m'. m'(v \<mapsto> slice_at m' v @ [c])) names m"

definition tickleLoop :: "Tickler \<Rightarrow> Tickler" where
  "tickleLoop s = (case try_send () (loopSignal s) of
       Some c \<Rightarrow> s\<lparr>loopSignal := c\<rparr>
     | None \<Rightarrow> s)"

text \<open>
  \<open>Enqueue\<close> and \<open>EnqueueWithContext\<close> hold the lock from their first to their last
  statement and block nowhere, so each is one step, taken when the lock is free. The
  deferred \<open>tickleLoop\<close> runs last.
\<close>

definition Enqueue :: "Request \<Rightarrow> EventOption list \<Rightarrow> Tickler \<Rightarrow> Tickler" where
  "Enqueue request opts s =
     (let ticklerEvent = newEvent (next_chan s) Background request opts in
      tickleLoop (s\<lparr>next_chan := next_chan s + 2,
        currentJobs := (currentJobs s)(RJob request \<mapsto> True),
        jobsWaitFor := register (waitFor (fnOpts ticklerEvent)) (ch ticklerEvent) (jobsWaitFor s),
        s_resultCh := register (ifSuccess (fnOpts ticklerEvent)) (resultCh ticklerEvent) (s_resultCh s),
        queue := queue s @ [ticklerEvent]\<rparr>))"

definition EnqueueWithContext :: "Context \<Rightarrow> Request \<Rightarrow> EventOption list \<Rightarrow> Tickler \<Rightarrow> Tickler" where
  "EnqueueWithContext c request opts s =
     (let ticklerEvent = newEvent (next_chan s) c request opts in
      tickleLoop (s\<lparr>next_chan := next_chan s + 2,
        currentJobs := (currentJobs s)(RJob request \<mapsto> True),
        jobsWaitFor := register (waitFor (fnOpts ticklerEvent)) (ch ticklerEvent) (jobsWaitFor s),
        queue := queue s @ [ticklerEvent]\<rparr>))"

definition Start :: "Tickler \<Rightarrow> Tickler" where
  "Start s = s\<lparr>loops := loops s @ [LoopTop]\<rparr>"

text \<open>
  \<open>Stop\<close> makes a child of \<open>s.ctx\<close>, stores it in \<open>s.ctx\<close> and cancels it on return. The
  store and the cancel are one step here: a loop that reads \<open>s.ctx\<close> between the two
  waits on the channel that the cancel then closes, as if it had read it after both.
\<close>

definition Stop :: "Tickler \<Rightarrow> Tickler" where
  "Stop s = s\<lparr>s_ctx := WithCancel (s_ctx s) True\<rparr>"

subsection \<open>The dispatch loop\<close>

text \<open>\<open>go s.process(request)\<close>: the new goroutine with the locals of \<open>process\<close> set.\<close>

definition process_start :: "Event \<Rightarrow> worker" where
  "process_start event =
     \<lparr>fnOpts = fnOpts event, Job = Job event, f = f event, ctx = ctx event,
      result = result event, ch = ch event, resultCh = resultCh event,
      cnt = int (length (waitFor (fnOpts event))),
      SucceededEvents = int (length (ifSuccess (fnOpts event))),
      FailedEvents = int (length (ifFailure (fnOpts event))),
      TotalEvents = int (length (ifSuccess (fnOpts event))) + int (length (ifFailure (fnOpts event))),
      pc = Waiting, invoked = False, received = [], writes = 0\<rparr>"

text \<open>
  \<open>tryDequeue\<close>, from the lock to the unlock: nothing on an empty queue; otherwise a
  non-blocking send to the semaphore and, when it is taken, \<open>dequeue\<close> (the front of the
  queue) and a new worker.
\<close>

definition tryDequeue :: "Tickler \<Rightarrow> Tickler" where
  "tryDequeue s =
     (case queue s of
        [] \<Rightarrow> s
      | request # rest \<Rightarrow>
          (case try_send 1 (sema s) of
             None \<Rightarrow> s
           | Some c \<Rightarrow> s\<lparr>sema := c, queue := rest, workers := workers s @ [process_start request]\<rparr>))"

text \<open>
  A step of loop goroutine \<open>i\<close> that is not a branch of the \<open>select\<close>: entering the
  \<open>select\<close> (\<open>s.ctx\<close> is read here), or \<open>tryDequeue\<close> once the lock is free.
\<close>

definition loop_step :: "nat \<Rightarrow> Tickler \<Rightarrow> Tickler option" where
  "loop_step i s =
     (if i < length (loops s) then
        (case loops s ! i of
           LoopTop \<Rightarrow> Some (s\<lparr>loops := (loops s)[i := InSelect (ctx_Done (s_ctx s))]\<rparr>)
         | InSelect d \<Rightarrow> None
         | InTryDequeue \<Rightarrow>
             if mu s then None
             else Some ((tryDequeue s)\<lparr>loops := (loops s)[i := LoopTop]\<rparr>))
      else None)"

text \<open>\<open>case <-s.loopSignal\<close>: a pending wake is taken.\<close>

definition loop_wake :: "nat \<Rightarrow> Tickler \<Rightarrow> Tickler option" where
  "loop_wake i s =
     (if i < length (loops s) then
        (case loops s ! i of
           InSelect d \<Rightarrow>
             (case recv (loopSignal s) of
                None \<Rightarrow> None
              | Some (v, c) \<Rightarrow> Some (s\<lparr>loopSignal := c, loops := (loops s)[i := InTryDequeue]\<rparr>))
         | LoopTop \<Rightarrow> None
         | InTryDequeue \<Rightarrow> None)
      else None)"

text \<open>\<open>case <-s.ctx.Done()\<close>: the loop returns.\<close>

definition loop_exit :: "nat \<Rightarrow> Tickler \<Rightarrow> Tickler option" where
  "loop_exit i s =
     (if i < length (loops s) then
        (case loops s ! i of
           InSelect d \<Rightarrow>
             if d then Some (s\<lparr>loops := take i (loops s) @ drop (Suc i) (loops s)\<rparr>) else None
         | LoopTop \<Rightarrow> None
         | InTryDequeue \<Rightarrow> None)
      else None)"

subsection \<open>The worker\<close>

text \<open>The exit test of the wait loop.\<close>

definition loop_done :: "worker \<Rightarrow> bool" where
  "loop_done w = (cnt w < 1 \<and> TotalEvents w = 0)"

text \<open>
  \<open>process\<close> after the wait loop, up to the call of the body or the return: the test of
  the two tallies, then the test of the event's context.
\<close>

definition proceed :: "worker \<Rightarrow> worker" where
  "proceed w =
     (if SucceededEvents w \<noteq> 0 \<or> FailedEvents w \<noteq> 0
      then w\<lparr>result := statusFailure, writes := writes w + 1, pc := RemoveJobLock\<rparr>
      else if ctx_Done (ctx w) then w\<lparr>pc := RemoveJobLock\<rparr>
      else w\<lparr>pc := Running, invoked := True\<rparr>)"

text \<open>The body returns: \<open>if err := event.f(); err != nil { event.result = statusFailure }\<close>.\<close>

definition body_returns :: "worker \<Rightarrow> worker" where
  "body_returns w =
     (case f w () of
        None \<Rightarrow> w\<lparr>pc := RemoveJobLock\<rparr>
      | Some err \<Rightarrow> w\<lparr>result := statusFailure, writes := writes w + 1, pc := RemoveJobLock\<rparr>)"

text \<open>
  A step of worker \<open>i\<close> on its own. In the \<open>select\<close> and at a send on an unbuffered
  channel it has none: those are \<open>send_step\<close>. The deferred calls run \<open>removeJob\<close> first,
  then \<open>replenish\<close>. \<open>removeJob\<close> keeps the lock while it sends.
\<close>

definition worker_step :: "nat \<Rightarrow> Tickler \<Rightarrow> Tickler option" where
  "worker_step i s =
     (if i < length (workers s) then
        (let w = workers s ! i in
         case pc w of
           Waiting \<Rightarrow>
             if loop_done w then Some (s\<lparr>workers := (workers s)[i := proceed w]\<rparr>) else None
         | Running \<Rightarrow> Some (s\<lparr>workers := (workers s)[i := body_returns w]\<rparr>)
         | RemoveJobLock \<Rightarrow>
             if mu s then None
             else Some (s\<lparr>mu := True,
               workers := (workers s)[i := w\<lparr>pc := SendCh (slice_at (jobsWaitFor s) (Job w))\<rparr>]\<rparr>)
         | SendCh cs \<Rightarrow>
             (case cs of
                [] \<Rightarrow> Some (s\<lparr>workers :=
                        (workers s)[i := w\<lparr>pc := SendRes (slice_at (s_resultCh s) (Job w))\<rparr>]\<rparr>)
              | c # cs' \<Rightarrow> None)
         | SendRes cs \<Rightarrow>
             (case cs of
                [] \<Rightarrow> Some (s\<lparr>jobsWaitFor := (jobsWaitFor s)(Job w := None),
                        currentJobs := (currentJobs s)(Job w := None),
                        mu := False,
                        workers := (workers s)[i := w\<lparr>pc := Replenish\<rparr>]\<rparr>)
              | c # cs' \<Rightarrow> None)
         | Replenish \<Rightarrow>
             (case recv (sema s) of
                None \<Rightarrow> None
              | Some (v, c) \<Rightarrow> Some (s\<lparr>sema := c, workers := (workers s)[i := w\<lparr>pc := Tickle\<rparr>]\<rparr>))
         | Tickle \<Rightarrow>
             Some (tickleLoop (s\<lparr>workers := take i (workers s) @ drop (Suc i) (workers s)\<rparr>)))
      else None)"

text \<open>A worker blocked in the \<open>select\<close> of the wait loop.\<close>

definition at_select :: "worker \<Rightarrow> bool" where
  "at_select w = (pc w = Waiting \<and> \<not> loop_done w)"

text \<open>\<open>case <-event.ch\<close> and \<open>case r := <-event.resultCh\<close>.\<close>

definition recv_ch :: "worker \<Rightarrow> worker" where
  "recv_ch w = w\<lparr>cnt := cnt w - 1\<rparr>"

definition recv_result :: "JobName \<Rightarrow> status \<Rightarrow> worker \<Rightarrow> worker" where
  "recv_result sender r w =
     (if r = statusSuccess
      then w\<lparr>TotalEvents := TotalEvents w - 1, SucceededEvents := SucceededEvents w - 1,
             received := received w @ [(sender, r)]\<rparr>
      else w\<lparr>TotalEvents := TotalEvents w - 1, FailedEvents := FailedEvents w - 1,
             received := received w @ [(sender, r)]\<rparr>)"

text \<open>
  A send of \<open>removeJob\<close> on an unbuffered channel meets the receive of the worker that
  owns the channel: worker \<open>i\<close> sends, worker \<open>j\<close> receives.
\<close>

definition send_step :: "nat \<Rightarrow> nat \<Rightarrow> Tickler \<Rightarrow> Tickler option" where
  "send_step i j s =
     (if i < length (workers s) \<and> j < length (workers s) then
        (let w = workers s ! i; r = workers s ! j in
         case pc w of
           SendCh cs \<Rightarrow>
             (case cs of
                [] \<Rightarrow> None
              | c # cs' \<Rightarrow>
                  if ch r = c \<and> at_select r
                  then Some (s\<lparr>workers := (workers s)[i := w\<lparr>pc := SendCh cs'\<rparr>, j := recv_ch r]\<rparr>)
                  else None)
         | SendRes cs \<Rightarrow>
             (case cs of
                [] \<Rightarrow> None
              | c # cs' \<Rightarrow>
                  if resultCh r = c \<and> at_select r
                  then Some (s\<lparr>workers :=
                    (workers s)[i := w\<lparr>pc := SendRes cs'\<rparr>, j := recv_result (Job w) (result w) r]\<rparr>)
                  else None)
         | Waiting \<Rightarrow> None
         | Running \<Rightarrow> None
         | RemoveJobLock \<Rightarrow> None
         | Replenish \<Rightarrow> None
         | Tickle \<Rightarrow> None)
      else None)"

text \<open>The caller cancels the context it gave to \<open>EnqueueWithContext\<close>.\<close>

definition cancel_event :: "nat \<Rightarrow> Tickler \<Rightarrow> Tickler option" where
  "cancel_event i s =
     (if i < length (workers s) then
        (case cancel (ctx (workers s ! i)) of
           None \<Rightarrow> None
         | Some c \<Rightarrow> Some (s\<lparr>workers := (workers s)[i := (workers s ! i)\<lparr>ctx := c\<rparr>]\<rparr>))
      else None)"

subsection \<open>Interleavings\<close>

text \<open>
  One atomic step of the program: a call of the public interface by some caller, or a
  step of one goroutine. \<open>exec\<close> gives \<open>None\<close> when the step cannot be taken in the state
  (the goroutine is blocked, or is not there).
\<close>

datatype action =
  CallEnqueue Request "EventOption list"
| CallEnqueueWithContext Context Request "EventOption list"
| CallStart
| CallStop
| LoopStep nat
| LoopWake nat
| LoopExit nat
| WorkerStep nat
| SendStep nat nat
| CancelEvent nat

fun exec :: "action \<Rightarrow> Tickler \<Rightarrow> Tickler option" where
  "exec (CallEnqueue request opts) s = (if mu s then None else Some (Enqueue request opts s))"
| "exec (CallEnqueueWithContext c request opts) s =
     (if mu s then None else Some (EnqueueWithContext c request opts s))"
| "exec CallStart s = Some (Start s)"
| "exec CallStop s = Some (Stop s)"
| "exec (LoopStep i) s = loop_step i s"
| "exec (LoopWake i) s = loop_wake i s"
| "exec (LoopExit i) s = loop_exit i s"
| "exec (WorkerStep i) s = worker_step i s"
| "exec (SendStep i j) s = send_step i j s"
| "exec (CancelEvent i) s = cancel_event i s"

fun run :: "action list \<Rightarrow> Tickler \<Rightarrow> Tickler option" where
  "run [] s = Some s"
| "run (a # as) s = (case exec a s of None \<Rightarrow> None | Some s' \<Rightarrow> run as s')"

subsection \<open>Predicates on states\<close>








text \<open>
  A result channel \<open>c\<close> that nothing will ever send on: it is in no list of \<open>s.resultCh\<close>
  and in no list a \<open>removeJob\<close> is still sending to, and its owner is still queued or in
  the wait loop with results outstanding.
\<close>

definition unserved_worker :: "chan_id \<Rightarrow> worker \<Rightarrow> bool" where
  "unserved_worker c w =
     ((\<forall>cs. pc w = SendRes cs \<longrightarrow> c \<notin> set cs)
      \<and> (resultCh w = c \<longrightarrow> pc w = Waiting \<and> TotalEvents w \<noteq> 0 \<and> \<not> invoked w))"

definition unserved :: "chan_id \<Rightarrow> Tickler \<Rightarrow> bool" where
  "unserved c s =
     (c < next_chan s
      \<and> (\<forall>n cs. s_resultCh s n = Some cs \<longrightarrow> c \<notin> set cs)
      \<and> list_all (unserved_worker c) (workers s)
      \<and> list_all (\<lambda>e. resultCh e = c \<longrightarrow> ifSuccess (fnOpts e) \<noteq> [] \<or> ifFailure (fnOpts e) \<noteq> [])
           (queue s)
      \<and> ((\<exists>e \<in> set (queue s). resultCh e = c) \<or> (\<exists>w \<in> set (workers s). resultCh w = c)))"

text \<open>Observations of a state: all of it but which context \<open>s.ctx\<close> is, of which only
  whether it is done can be seen.\<close>

definition same_obs :: "Tickler \<Rightarrow> Tickler \<Rightarrow> bool" where
  "same_obs s t =
     (mu s = mu t \<and> ctx_Done (s_ctx s) = ctx_Done (s_ctx t) \<and> queue s = queue t
      \<and> Limit s = Limit t \<and> sema s = sema t \<and> loopSignal s = loopSignal t
      \<and> currentJobs s = currentJobs t \<and> jobsWaitFor s = jobsWaitFor t
      \<and> s_resultCh s = s_resultCh t \<and> loops s = loops t \<and> workers s = workers t
      \<and> next_chan s = next_chan t)"

text \<open>
  \<open>removeJob\<close> holds the lock from its first statement to its return, so through both
  of its \<open>range\<close> loops: the lock is held exactly when one worker is in one of them.
\<close>

definition holds_lock :: "worker \<Rightarrow> bool" where
  "holds_lock w = (case pc w of SendCh cs \<Rightarrow> True | SendRes cs \<Rightarrow> True | _ \<Rightarrow> False)"

definition lock_ok :: "Tickler \<Rightarrow> bool" where
  "lock_ok s = (length (filter holds_lock (workers s)) = (if mu s then 1 else 0))"


text \<open>
  A worker that has not entered \<open>removeJob\<close> yet. A message \<open>m\<close> (a name and a result)
  is delivered on the channel \<open>c\<close> when the owner of \<open>c\<close> is such a worker and has
  received \<open>m\<close>. A worker in the second loop of \<open>removeJob\<close> has, of the list
  \<open>s.resultCh[event.Job]\<close> it ranges over, delivered its name and result on every channel
  before the ones still to be served.
\<close>

definition awaiting :: "worker \<Rightarrow> bool" where
  "awaiting w = (pc w = Waiting \<or> pc w = Running \<or> pc w = RemoveJobLock)"

definition delivered :: "JobName \<times> status \<Rightarrow> chan_id \<Rightarrow> worker list \<Rightarrow> bool" where
  "delivered m c ws = (\<exists>w \<in> set ws. resultCh w = c \<and> m \<in> set (received w) \<and> awaiting w)"

definition serving :: "(JobName \<rightharpoonup> chan_id list) \<Rightarrow> worker list \<Rightarrow> worker \<Rightarrow> bool" where
  "serving m ws a =
     (\<forall>cs. pc a = SendRes cs \<longrightarrow>
        (\<exists>served. slice_at m (Job a) = served @ cs
           \<and> (\<forall>c \<in> set served. delivered (Job a, result a) c ws)))"

definition served_ok :: "Tickler \<Rightarrow> bool" where
  "served_ok s = list_all (serving (s_resultCh s) (workers s)) (workers s)"


text \<open>The step \<open>a\<close> cannot be taken in the state \<open>s\<close>.\<close>

definition blocked :: "action \<Rightarrow> Tickler \<Rightarrow> bool" where
  "blocked a s = (case exec a s of None \<Rightarrow> True | Some s' \<Rightarrow> False)"

subsection \<open>Scenarios\<close>

text \<open>A job whose body returns an error, and one whose body returns \<open>nil\<close>.\<close>

definition failing_job :: "JobName \<Rightarrow> Request" where
  "failing_job name = \<lparr>F = (\<lambda>u. Some ''failed''), FC = (\<lambda>c. None), RJob = name\<rparr>"

definition plain_job :: "JobName \<Rightarrow> Request" where
  "plain_job name = \<lparr>F = (\<lambda>u. None), FC = (\<lambda>c. None), RJob = name\<rparr>"

text \<open>
  Both jobs of a scenario are dispatched by one loop goroutine: \<open>Start\<close>, then twice
  enter the \<open>select\<close>, take a wake, \<open>tryDequeue\<close>.
\<close>

definition dispatch_two :: "action list" where
  "dispatch_two =
     [CallStart, LoopStep 0, LoopWake 0, LoopStep 0, LoopStep 0, LoopWake 0, LoopStep 0]"

text \<open>
  Worker 0 runs a job that waits for nothing and has no waiters on its \<open>jobsWaitFor\<close>
  list, from the wait loop to the end of \<open>removeJob\<close>'s first loop: loop exit and call,
  return of the body, lock, first \<open>range\<close> loop done.
\<close>

definition run_first :: "action list" where
  "run_first = [WorkerStep 0, WorkerStep 0, WorkerStep 0, WorkerStep 0]"

text \<open>The rest of the deferred calls of worker 0: unlock, release of the slot, wake.\<close>

definition finish_first :: "action list" where
  "finish_first = [WorkerStep 0, WorkerStep 0, WorkerStep 0]"


text \<open>Scenario D: A fails, B is submitted with \<open>IfFailure(A)\<close>; A runs and finishes.\<close>

definition scenario_D :: "action list" where
  "scenario_D =
     [CallEnqueue (failing_job ''A'') [], CallEnqueue (plain_job ''B'') [IfFailure [''A'']]]
     @ dispatch_two @ run_first @ finish_first"


text \<open>
  A is submitted alone, is dispatched, fails and reaches the end of the second loop of
  \<open>removeJob\<close>. Then A returns from its deferred calls, and only then B is submitted with
  \<open>IfSuccess(A)\<close> and dispatched; the loop takes the second wake, finds the queue empty
  and waits in its \<open>select\<close>.
\<close>

definition first_alone :: "action list" where
  "first_alone =
     [CallEnqueue (failing_job ''A'') [], CallStart, LoopStep 0, LoopWake 0, LoopStep 0]
     @ run_first"

definition late_dependent :: "action list" where
  "late_dependent =
     finish_first
     @ [CallEnqueue (plain_job ''B'') [IfSuccess [''A'']],
        LoopStep 0, LoopWake 0, LoopStep 0, LoopStep 0, LoopWake 0, LoopStep 0, LoopStep 0]"


text \<open>
  The state after the two submissions of scenario C, and the run up to the moment when
  both jobs are dispatched and A is inside its body.
\<close>

definition after_submissions_C :: Tickler where
  "after_submissions_C =
     Enqueue (plain_job ''B'') [IfSuccess [''A'']] (Enqueue (failing_job ''A'') [] New)"

definition both_dispatched :: "action list" where
  "both_dispatched =
     [CallEnqueue (failing_job ''A'') [], CallEnqueue (plain_job ''B'') [IfSuccess [''A'']]]
     @ dispatch_two @ [WorkerStep 0]"

subsection \<open>The earlier iteration of the package\<close>

text \<open>
  The second source file is an earlier version of the same package, in which a job can
  only wait for other jobs. Its option, its event and its constructor are modelled here;
  a name ending in \<open>0\<close> is the earlier version of the name without it.
\<close>

record ticklerFunctionOptions =
  waitFor0 :: "JobName list"

datatype TicklerFunctionOption = WaitForJobs0 "JobName list"

fun apply_opt0 :: "TicklerFunctionOption \<Rightarrow> ticklerFunctionOptions \<Rightarrow> ticklerFunctionOptions" where
  "apply_opt0 (WaitForJobs0 jobNames) t = t\<lparr>waitFor0 := jobNames\<rparr>"

record Request0 =
  F0 :: BackgroundFn
  RJob0 :: JobName

record ticklerEvent =
  fnOpts0 :: ticklerFunctionOptions
  Job0 :: JobName
  f0 :: BackgroundFn
  ch0 :: chan_id

definition newTicklerEvent :: "chan_id \<Rightarrow> Request0 \<Rightarrow> TicklerFunctionOption list \<Rightarrow> ticklerEvent" where
  "newTicklerEvent n request opts =
     \<lparr>fnOpts0 = fold apply_opt0 opts \<lparr>waitFor0 = []\<rparr>,
      Job0 = RJob0 request,
      f0 = F0 request,
      ch0 = n\<rparr>"

record Tickler0 =
  mu0 :: bool
  queue0 :: "ticklerEvent list"
  sema0 :: "int chan"
  loopSignal0 :: "unit chan"
  currentJobs0 :: "JobName \<rightharpoonup> bool"
  jobsWaitFor0 :: "JobName \<rightharpoonup> chan_id list"

definition New0 :: Tickler0 where
  "New0 =
     \<lparr>mu0 = False,
      queue0 = [],
      sema0 = make_chan defaultRequestLimit,
      loopSignal0 = make_chan defaultRequestLimit,
      currentJobs0 = Map.empty,
      jobsWaitFor0 = Map.empty\<rparr>"

section \<open>Properties\<close>

subsection \<open>Runs, channels and the shape of a step\<close>

lemma run_append: "run (as @ bs) s = (case run as s of None \<Rightarrow> None | Some s' \<Rightarrow> run bs s')"
  by (induction as arbitrary: s) (auto split: option.splits)

lemma run_invariant:
  assumes step: "\<And>a s s'. P s \<Longrightarrow> exec a s = Some s' \<Longrightarrow> P s'"
    and "P s" and "run as s = Some s'"
  shows "P s'"
  using assms(2,3) by (induction as arbitrary: s) (auto split: option.splits intro: step)

lemma map_option_run:
  "map_option g (run as s) = Some v \<Longrightarrow> \<exists>t. run as s = Some t \<and> g t = v"
  by (cases "run as s") auto

lemma try_send_Some: "try_send v c = Some c' \<Longrightarrow> cap c' = cap c \<and> buf c' = buf c @ [v] \<and> length (buf c) < cap c"
  by (auto simp: try_send_def split: if_splits)

lemma recv_Some: "recv c = Some (v, c') \<Longrightarrow> cap c' = cap c \<and> buf c = v # buf c'"
  by (auto simp: recv_def split: list.splits)

lemmas step_defs = Enqueue_def EnqueueWithContext_def Start_def Stop_def tickleLoop_def
  loop_step_def loop_wake_def loop_exit_def tryDequeue_def worker_step_def send_step_def
  cancel_event_def

lemma tickleLoop_frame:
  "mu (tickleLoop s) = mu s" "s_ctx (tickleLoop s) = s_ctx s" "queue (tickleLoop s) = queue s"
  "Limit (tickleLoop s) = Limit s" "sema (tickleLoop s) = sema s"
  "currentJobs (tickleLoop s) = currentJobs s" "jobsWaitFor (tickleLoop s) = jobsWaitFor s"
  "s_resultCh (tickleLoop s) = s_resultCh s" "loops (tickleLoop s) = loops s"
  "workers (tickleLoop s) = workers s" "next_chan (tickleLoop s) = next_chan s"
  by (simp_all add: tickleLoop_def split: option.splits)

lemma Enqueue_frame:
  "mu (Enqueue r os s) = mu s" "s_ctx (Enqueue r os s) = s_ctx s"
  "Limit (Enqueue r os s) = Limit s" "sema (Enqueue r os s) = sema s"
  "loops (Enqueue r os s) = loops s" "workers (Enqueue r os s) = workers s"
  "next_chan (Enqueue r os s) = next_chan s + 2"
  "queue (Enqueue r os s) = queue s @ [newEvent (next_chan s) Background r os]"
  by (simp_all add: Enqueue_def Let_def tickleLoop_frame)

lemma EnqueueWithContext_frame:
  "mu (EnqueueWithContext c r os s) = mu s" "s_ctx (EnqueueWithContext c r os s) = s_ctx s"
  "Limit (EnqueueWithContext c r os s) = Limit s" "sema (EnqueueWithContext c r os s) = sema s"
  "loops (EnqueueWithContext c r os s) = loops s" "workers (EnqueueWithContext c r os s) = workers s"
  "next_chan (EnqueueWithContext c r os s) = next_chan s + 2"
  "queue (EnqueueWithContext c r os s) = queue s @ [newEvent (next_chan s) c r os]"
  "s_resultCh (EnqueueWithContext c r os s) = s_resultCh s"
  by (simp_all add: EnqueueWithContext_def Let_def tickleLoop_frame)

lemma worker_step_cases:
  assumes "worker_step i s = Some s'"
  obtains
    (Leave) "i < length (workers s)" "pc (workers s ! i) = Waiting" "loop_done (workers s ! i)"
      "s' = s\<lparr>workers := (workers s)[i := proceed (workers s ! i)]\<rparr>"
  | (Return) "i < length (workers s)" "pc (workers s ! i) = Running"
      "s' = s\<lparr>workers := (workers s)[i := body_returns (workers s ! i)]\<rparr>"
  | (Lock) "i < length (workers s)" "pc (workers s ! i) = RemoveJobLock" "\<not> mu s"
      "s' = s\<lparr>mu := True, workers := (workers s)[i := (workers s ! i)
          \<lparr>pc := SendCh (slice_at (jobsWaitFor s) (Job (workers s ! i)))\<rparr>]\<rparr>"
  | (Sent) "i < length (workers s)" "pc (workers s ! i) = SendCh []"
      "s' = s\<lparr>workers := (workers s)[i := (workers s ! i)
          \<lparr>pc := SendRes (slice_at (s_resultCh s) (Job (workers s ! i)))\<rparr>]\<rparr>"
  | (Unlock) "i < length (workers s)" "pc (workers s ! i) = SendRes []"
      "s' = s\<lparr>jobsWaitFor := (jobsWaitFor s)(Job (workers s ! i) := None),
          currentJobs := (currentJobs s)(Job (workers s ! i) := None),
          mu := False,
          workers := (workers s)[i := (workers s ! i)\<lparr>pc := Replenish\<rparr>]\<rparr>"
  | (Release) v c where "i < length (workers s)" "pc (workers s ! i) = Replenish"
      "recv (sema s) = Some (v, c)"
      "s' = s\<lparr>sema := c, workers := (workers s)[i := (workers s ! i)\<lparr>pc := Tickle\<rparr>]\<rparr>"
  | (Wake) "i < length (workers s)" "pc (workers s ! i) = Tickle"
      "s' = tickleLoop (s\<lparr>workers := take i (workers s) @ drop (Suc i) (workers s)\<rparr>)"
proof -
  from assms have i: "i < length (workers s)"
    by (simp add: worker_step_def split: if_splits)
  show thesis
  proof (cases "pc (workers s ! i)")
    case Waiting
    with assms i have "loop_done (workers s ! i)"
      "s' = s\<lparr>workers := (workers s)[i := proceed (workers s ! i)]\<rparr>"
      by (simp_all add: worker_step_def Let_def split: if_splits)
    with i Waiting show thesis by (rule Leave)
  next
    case Running
    with assms i have "s' = s\<lparr>workers := (workers s)[i := body_returns (workers s ! i)]\<rparr>"
      by (simp add: worker_step_def Let_def)
    with i Running show thesis by (rule Return)
  next
    case RemoveJobLock
    with assms i have "\<not> mu s"
      "s' = s\<lparr>mu := True, workers := (workers s)[i := (workers s ! i)
          \<lparr>pc := SendCh (slice_at (jobsWaitFor s) (Job (workers s ! i)))\<rparr>]\<rparr>"
      by (simp_all add: worker_step_def Let_def split: if_splits)
    with i RemoveJobLock show thesis by (rule Lock)
  next
    case (SendCh cs)
    with assms i have "cs = []"
      "s' = s\<lparr>workers := (workers s)[i := (workers s ! i)
          \<lparr>pc := SendRes (slice_at (s_resultCh s) (Job (workers s ! i)))\<rparr>]\<rparr>"
      by (simp_all add: worker_step_def Let_def split: list.splits)
    with i SendCh show thesis by (intro Sent) simp_all
  next
    case (SendRes cs)
    with assms i have "cs = []"
      "s' = s\<lparr>jobsWaitFor := (jobsWaitFor s)(Job (workers s ! i) := None),
          currentJobs := (currentJobs s)(Job (workers s ! i) := None),
          mu := False,
          workers := (workers s)[i := (workers s ! i)\<lparr>pc := Replenish\<rparr>]\<rparr>"
      by (simp_all add: worker_step_def Let_def split: list.splits)
    with i SendRes show thesis by (intro Unlock) simp_all
  next
    case Replenish
    with assms i obtain v c where "recv (sema s) = Some (v, c)"
      "s' = s\<lparr>sema := c, workers := (workers s)[i := (workers s ! i)\<lparr>pc := Tickle\<rparr>]\<rparr>"
      by (cases "recv (sema s)") (auto simp: worker_step_def Let_def)
    with i Replenish show thesis by (rule Release)
  next
    case Tickle
    with assms i have
      "s' = tickleLoop (s\<lparr>workers := take i (workers s) @ drop (Suc i) (workers s)\<rparr>)"
      by (simp add: worker_step_def Let_def)
    with i Tickle show thesis by (rule Wake)
  qed
qed

lemma send_step_cases:
  assumes "send_step i j s = Some s'"
  obtains
    (Ch) c cs where "i < length (workers s)" "j < length (workers s)"
      "pc (workers s ! i) = SendCh (c # cs)" "ch (workers s ! j) = c" "at_select (workers s ! j)"
      "s' = s\<lparr>workers := (workers s)[i := (workers s ! i)\<lparr>pc := SendCh cs\<rparr>,
          j := recv_ch (workers s ! j)]\<rparr>"
  | (Res) c cs where "i < length (workers s)" "j < length (workers s)"
      "pc (workers s ! i) = SendRes (c # cs)" "resultCh (workers s ! j) = c"
      "at_select (workers s ! j)"
      "s' = s\<lparr>workers := (workers s)[i := (workers s ! i)\<lparr>pc := SendRes cs\<rparr>,
          j := recv_result (Job (workers s ! i)) (result (workers s ! i)) (workers s ! j)]\<rparr>"
proof -
  from assms have ij: "i < length (workers s)" "j < length (workers s)"
    by (simp_all add: send_step_def split: if_splits)
  show thesis
  proof (cases "pc (workers s ! i)")
    case (SendCh cs0)
    with assms ij obtain c cs where "cs0 = c # cs" "ch (workers s ! j) = c"
      "at_select (workers s ! j)"
      "s' = s\<lparr>workers := (workers s)[i := (workers s ! i)\<lparr>pc := SendCh cs\<rparr>,
          j := recv_ch (workers s ! j)]\<rparr>"
      by (cases cs0) (simp_all add: send_step_def Let_def split: if_splits)
    with ij SendCh show thesis by (intro Ch) simp_all
  next
    case (SendRes cs0)
    with assms ij obtain c cs where "cs0 = c # cs" "resultCh (workers s ! j) = c"
      "at_select (workers s ! j)"
      "s' = s\<lparr>workers := (workers s)[i := (workers s ! i)\<lparr>pc := SendRes cs\<rparr>,
          j := recv_result (Job (workers s ! i)) (result (workers s ! i)) (workers s ! j)]\<rparr>"
      by (cases cs0) (simp_all add: send_step_def Let_def split: if_splits)
    with ij SendRes show thesis by (intro Res) simp_all
  qed (use assms ij in \<open>simp_all add: send_step_def Let_def\<close>)
qed

lemma loop_step_cases:
  assumes "loop_step i s = Some s'"
  obtains
    (Enter) "i < length (loops s)" "loops s ! i = LoopTop"
      "s' = s\<lparr>loops := (loops s)[i := InSelect (ctx_Done (s_ctx s))]\<rparr>"
  | (Dequeue) "i < length (loops s)" "loops s ! i = InTryDequeue" "\<not> mu s"
      "s' = (tryDequeue s)\<lparr>loops := (loops s)[i := LoopTop]\<rparr>"
proof -
  from assms have i: "i < length (loops s)"
    by (simp add: loop_step_def split: if_splits)
  show thesis
  proof (cases "loops s ! i")
    case LoopTop
    with assms i have "s' = s\<lparr>loops := (loops s)[i := InSelect (ctx_Done (s_ctx s))]\<rparr>"
      by (simp add: loop_step_def)
    with i LoopTop show thesis by (rule Enter)
  next
    case (InSelect d)
    with assms i show thesis by (simp add: loop_step_def)
  next
    case InTryDequeue
    with assms i have "\<not> mu s" "s' = (tryDequeue s)\<lparr>loops := (loops s)[i := LoopTop]\<rparr>"
      by (simp_all add: loop_step_def split: if_splits)
    with i InTryDequeue show thesis by (rule Dequeue)
  qed
qed

lemma tryDequeue_cases:
  obtains
    (Idle) "tryDequeue s = s"
  | (Dispatch) request rest c where "queue s = request # rest" "try_send 1 (sema s) = Some c"
      "tryDequeue s = s\<lparr>sema := c, queue := rest, workers := workers s @ [process_start request]\<rparr>"
  by (cases "queue s"; cases "try_send 1 (sema s)") (simp_all add: tryDequeue_def)

lemma exec_caps:
  "exec a s = Some s' \<Longrightarrow>
     cap (sema s') = cap (sema s) \<and> cap (loopSignal s') = cap (loopSignal s) \<and> Limit s' = Limit s"
  by (cases a)
    (auto simp: step_defs Let_def dest!: try_send_Some recv_Some
      split: if_splits option.splits list.splits phase.splits loop_pc.splits)

lemma run_caps:
  "run as s = Some s' \<Longrightarrow>
     cap (sema s') = cap (sema s) \<and> cap (loopSignal s') = cap (loopSignal s) \<and> Limit s' = Limit s"
proof (induction as arbitrary: s)
  case Nil
  then show ?case by simp
next
  case (Cons a as)
  then obtain t where t: "exec a s = Some t" "run as t = Some s'"
    by (auto split: option.splits)
  from exec_caps[OF t(1)] Cons.IH[OF t(2)] show ?case by simp
qed

subsection \<open>Lists of goroutines\<close>

lemma filter_update_same:
  "i < length xs \<Longrightarrow> P x = P (xs ! i) \<Longrightarrow> length (filter P (xs[i := x])) = length (filter P xs)"
proof (induction xs arbitrary: i)
  case Nil
  then show ?case by simp
next
  case (Cons a xs)
  then show ?case by (cases i) auto
qed

lemma filter_update_drop:
  "i < length xs \<Longrightarrow> P (xs ! i) \<Longrightarrow> \<not> P x \<Longrightarrow>
     Suc (length (filter P (xs[i := x]))) = length (filter P xs)"
proof (induction xs arbitrary: i)
  case Nil
  then show ?case by simp
next
  case (Cons a xs)
  then show ?case by (cases i) auto
qed

lemma filter_remove_nth:
  "i < length xs \<Longrightarrow> \<not> P (xs ! i) \<Longrightarrow>
     length (filter P (take i xs)) + length (filter P (drop (Suc i) xs)) = length (filter P xs)"
proof (induction xs arbitrary: i)
  case Nil
  then show ?case by simp
next
  case (Cons a xs)
  then show ?case by (cases i) auto
qed


lemma list_all_update: "list_all P xs \<Longrightarrow> P x \<Longrightarrow> list_all P (xs[i := x])"
  using set_update_subset_insert[of xs i x] by (auto simp: list_all_iff)

lemma list_all_remove_nth: "list_all P xs \<Longrightarrow> list_all P (take i xs @ drop (Suc i) xs)"
  by (auto simp: list_all_iff dest: in_set_takeD in_set_dropD)

lemma list_all_nth: "list_all P xs \<Longrightarrow> i < length xs \<Longrightarrow> P (xs ! i)"
  by (simp add: list_all_length)

lemma ex_update:
  assumes "\<exists>w \<in> set ws. P w" and "P (ws ! i) \<Longrightarrow> P x"
  shows "\<exists>w \<in> set (ws[i := x]). P w"
proof -
  from assms(1) obtain k where k: "k < length ws" "P (ws ! k)"
    by (auto simp: in_set_conv_nth)
  show ?thesis
  proof (cases "k = i")
    case True
    with k assms(2) have "P ((ws[i := x]) ! i)" "i < length (ws[i := x])" by simp_all
    then show ?thesis by (metis nth_mem)
  next
    case False
    with k have "P ((ws[i := x]) ! k)" "k < length (ws[i := x])" by simp_all
    then show ?thesis by (metis nth_mem)
  qed
qed

lemma ex_remove_nth:
  assumes "\<exists>w \<in> set ws. P w" and "i < length ws" and "\<not> P (ws ! i)"
  shows "\<exists>w \<in> set (take i ws @ drop (Suc i) ws). P w"
proof -
  from assms(1) obtain w where w: "w \<in> set ws" "P w" by auto
  from assms(2) have "ws = take i ws @ ws ! i # drop (Suc i) ws"
    by (rule id_take_nth_drop)
  then have "set ws = set (take i ws) \<union> insert (ws ! i) (set (drop (Suc i) ws))"
    by (metis set_append list.simps(15))
  with w assms(3) show ?thesis by auto
qed

subsection \<open>Options\<close>

lemma fold_keeps_waitFor:
  "\<forall>zs. WaitForJobs zs \<notin> set opts \<Longrightarrow> waitFor (fold apply_opt opts t) = waitFor t"
proof (induction opts arbitrary: t)
  case Nil
  then show ?case by simp
next
  case (Cons p opts)
  then show ?case by (cases p) auto
qed

lemma fold_keeps_ifSuccess:
  "\<forall>zs. IfSuccess zs \<notin> set opts \<Longrightarrow> ifSuccess (fold apply_opt opts t) = ifSuccess t"
proof (induction opts arbitrary: t)
  case Nil
  then show ?case by simp
next
  case (Cons p opts)
  then show ?case by (cases p) auto
qed

lemma fold_keeps_ifFailure:
  "\<forall>zs. IfFailure zs \<notin> set opts \<Longrightarrow> ifFailure (fold apply_opt opts t) = ifFailure t"
proof (induction opts arbitrary: t)
  case Nil
  then show ?case by simp
next
  case (Cons p opts)
  then show ?case by (cases p) auto
qed

text \<open>
  Claim C10. An option given twice overwrites: after \<open>WaitForJobs(xs)\<close> and then
  \<open>WaitForJobs(ys)\<close> in the options of one submission, whatever other options stand before
  and between them and whatever options of the other kinds stand after them, the
  descriptor's \<open>waitFor\<close> is \<open>ys\<close> alone; likewise for \<open>IfSuccess\<close> and \<open>IfFailure\<close>, and
  for \<open>WaitForJobs\<close> of the earlier iteration.
\<close>

theorem repeated_option_last_wins:
  "((\<forall>zs. WaitForJobs zs \<notin> set later) \<longrightarrow>
      waitFor (fnOpts (newEvent n c request
        (earlier @ [WaitForJobs xs] @ between @ [WaitForJobs ys] @ later))) = ys)
   \<and> ((\<forall>zs. IfSuccess zs \<notin> set later) \<longrightarrow>
      ifSuccess (fnOpts (newEvent n c request
        (earlier @ [IfSuccess xs] @ between @ [IfSuccess ys] @ later))) = ys)
   \<and> ((\<forall>zs. IfFailure zs \<notin> set later) \<longrightarrow>
      ifFailure (fnOpts (newEvent n c request
        (earlier @ [IfFailure xs] @ between @ [IfFailure ys] @ later))) = ys)
   \<and> waitFor0 (fnOpts0 (newTicklerEvent n old_request
        (old_earlier @ [WaitForJobs0 xs] @ old_between @ [WaitForJobs0 ys]))) = ys"
  by (simp add: newEvent_def newTicklerEvent_def
      fold_keeps_waitFor fold_keeps_ifSuccess fold_keeps_ifFailure)

theorem repeated_option_last_wins_witness:
  "waitFor (fnOpts (newEvent 0 Background (plain_job ''J'')
      [IfSuccess [''s''], WaitForJobs [''a'', ''b''], IfFailure [''f''], WaitForJobs [''c''],
       IfSuccess [''t'']])) = [''c'']
   \<and> ifSuccess (fnOpts (newEvent 0 Background (plain_job ''J'')
      [IfSuccess [''a'', ''b''], IfSuccess [''c'']])) = [''c'']
   \<and> ifFailure (fnOpts (newEvent 0 Background (plain_job ''J'')
      [IfFailure [''a'', ''b''], IfFailure [''c'']])) = [''c'']
   \<and> waitFor0 (fnOpts0 (newTicklerEvent 0 \<lparr>F0 = (\<lambda>u. None), RJob0 = ''J''\<rparr>
      [WaitForJobs0 [''a'', ''b''], WaitForJobs0 [''c'']])) = [''c'']"
  using repeated_option_last_wins[where later = "[IfSuccess [''t'']]" and n = 0 and c = Background
      and request = "plain_job ''J''" and earlier = "[IfSuccess [''s'']]" and xs = "[''a'', ''b'']"
      and between = "[IfFailure [''f'']]" and ys = "[''c'']"
      and old_request = "\<lparr>F0 = (\<lambda>u. None), RJob0 = ''J''\<rparr>" and old_earlier = "[]" and old_between = "[]"]
    repeated_option_last_wins[where later = "[]" and n = 0 and c = Background
      and request = "plain_job ''J''" and earlier = "[]" and xs = "[''a'', ''b'']"
      and between = "[]" and ys = "[''c'']"
      and old_request = "\<lparr>F0 = (\<lambda>u. None), RJob0 = ''J''\<rparr>" and old_earlier = "[]" and old_between = "[]"]
  by simp

subsection \<open>Registration of conditional dependencies\<close>


lemma register_mem:
  "register names c m n = Some cs \<Longrightarrow> x \<in> set cs \<Longrightarrow>
     x = c \<or> (\<exists>cs0. m n = Some cs0 \<and> x \<in> set cs0)"
proof (induction names arbitrary: m)
  case Nil
  then show ?case by (simp add: register_def)
next
  case (Cons v names)
  from Cons.prems have "register names c (m(v \<mapsto> slice_at m v @ [c])) n = Some cs"
    by (simp add: register_def)
  from Cons.IH[OF this Cons.prems(2)] show ?case
    by (cases "m v") (auto simp: slice_at_def split: if_splits)
qed

lemma register_extends:
  "m n = Some cs \<Longrightarrow> \<exists>cs'. register names c m n = Some (cs @ cs')"
proof (induction names arbitrary: m cs)
  case Nil
  then show ?case by (simp add: register_def)
next
  case (Cons v names)
  have step: "register (v # names) c m = register names c (m(v \<mapsto> slice_at m v @ [c]))"
    by (simp add: register_def)
  show ?case
  proof (cases "n = v")
    case True
    with Cons.prems have "(m(v \<mapsto> slice_at m v @ [c])) n = Some (cs @ [c])"
      by (simp add: slice_at_def)
    then have "\<exists>cs'. register names c (m(v \<mapsto> slice_at m v @ [c])) n = Some ((cs @ [c]) @ cs')"
      by (rule Cons.IH)
    then show ?thesis by (auto simp: step)
  next
    case False
    with Cons.prems have "(m(v \<mapsto> slice_at m v @ [c])) n = Some cs" by simp
    then have "\<exists>cs'. register names c (m(v \<mapsto> slice_at m v @ [c])) n = Some (cs @ cs')"
      by (rule Cons.IH)
    then show ?thesis by (simp add: step)
  qed
qed


lemma slice_at_mem: "x \<in> set (slice_at m n) \<Longrightarrow> \<exists>cs. m n = Some cs \<and> x \<in> set cs"
  by (cases "m n") (simp_all add: slice_at_def)

text \<open>
  Claim C1 says that a submission appends the job's result channel to the result-waiter
  list of every name in \<open>ifSuccess\<close> and of every name in \<open>ifFailure\<close>, through \<open>Enqueue\<close>
  and through \<open>EnqueueWithContext\<close>. The code does not: \<open>Enqueue\<close> registers the names of
  \<open>ifSuccess\<close> only, so a submission with \<open>IfFailure\<close> alone leaves \<open>s.resultCh\<close> as it
  was, and \<open>EnqueueWithContext\<close> never writes \<open>s.resultCh\<close>.
\<close>

theorem conditional_registration_missing:
  "s_resultCh (Enqueue request opts s)
      = register (ifSuccess (fold apply_opt opts zero_eventOptions)) (Suc (next_chan s)) (s_resultCh s)
   \<and> s_resultCh (Enqueue request [IfFailure names] s) = s_resultCh s
   \<and> s_resultCh (EnqueueWithContext c request opts s) = s_resultCh s"
  by (simp add: Enqueue_def EnqueueWithContext_def Let_def tickleLoop_frame newEvent_def
      zero_eventOptions_def register_def)

theorem conditional_registration_missing_witness:
  "s_resultCh (Enqueue (plain_job ''B'') [IfFailure [''A'']] New) ''A'' = None
   \<and> s_resultCh (EnqueueWithContext Background (plain_job ''B'') [IfSuccess [''A'']] New) ''A'' = None"
  using conditional_registration_missing[of "plain_job ''B''" "[]" New "[''A'']"]
        conditional_registration_missing[of "plain_job ''B''" "[IfSuccess [''A'']]" New "[]" Background]
  by (simp add: New_def)

subsection \<open>What finalization deletes\<close>

lemma tryDequeue_resultCh: "s_resultCh (tryDequeue s) = s_resultCh s"
  by (cases s rule: tryDequeue_cases) simp_all

lemma exec_keeps_result_waiters:
  assumes "exec a s = Some s'" and "s_resultCh s n = Some cs"
  shows "\<exists>cs'. s_resultCh s' n = Some (cs @ cs')"
proof (cases a)
  case (CallEnqueue r os)
  with assms(1) have "s_resultCh s' = register (ifSuccess (fold apply_opt os zero_eventOptions))
      (Suc (next_chan s)) (s_resultCh s)"
    by (auto simp: Enqueue_def Let_def tickleLoop_frame newEvent_def split: if_splits)
  moreover from assms(2)
  have "\<exists>cs'. register (ifSuccess (fold apply_opt os zero_eventOptions))
      (Suc (next_chan s)) (s_resultCh s) n = Some (cs @ cs')"
    by (rule register_extends)
  ultimately show ?thesis by simp
next
  case (CallEnqueueWithContext c r os)
  with assms show ?thesis by (auto simp: EnqueueWithContext_frame split: if_splits)
next
  case CallStart
  with assms show ?thesis by (auto simp: Start_def)
next
  case CallStop
  with assms show ?thesis by (auto simp: Stop_def)
next
  case (LoopStep i)
  with assms show ?thesis by (auto simp: tryDequeue_resultCh elim!: loop_step_cases)
next
  case (LoopWake i)
  with assms show ?thesis
    by (auto simp: loop_wake_def split: if_splits loop_pc.splits option.splits)
next
  case (LoopExit i)
  with assms show ?thesis by (auto simp: loop_exit_def split: if_splits loop_pc.splits)
next
  case (WorkerStep i)
  with assms(1) have "worker_step i s = Some s'" by simp
  then have "s_resultCh s' = s_resultCh s"
    by (cases rule: worker_step_cases) (simp_all add: tickleLoop_frame)
  with assms(2) show ?thesis by simp
next
  case (SendStep i j)
  with assms(1) have "send_step i j s = Some s'" by simp
  then have "s_resultCh s' = s_resultCh s"
    by (cases rule: send_step_cases) simp_all
  with assms(2) show ?thesis by simp
next
  case (CancelEvent i)
  with assms show ?thesis by (auto simp: cancel_event_def split: if_splits option.splits)
qed

text \<open>
  Claim C3 says that a job that finalizes deletes its entry of the waiter map, its entry
  of the result-waiter map and its entry of the active set. \<open>removeJob\<close> deletes the first
  and the last only: no step of any run deletes or shortens an entry of \<open>s.resultCh\<close>.
\<close>

theorem result_waiters_never_deleted:
  assumes "run as s = Some s'" and "s_resultCh s n = Some cs"
  shows "\<exists>cs'. s_resultCh s' n = Some (cs @ cs')"
  using assms
proof (induction as arbitrary: s cs)
  case Nil
  then show ?case by simp
next
  case (Cons a as)
  then obtain t where t: "exec a s = Some t" "run as t = Some s'"
    by (auto split: option.splits)
  from exec_keeps_result_waiters[OF t(1) Cons.prems(2)]
  obtain cs1 where "s_resultCh t n = Some (cs @ cs1)" by blast
  from Cons.IH[OF t(2) this] obtain cs2 where "s_resultCh s' n = Some ((cs @ cs1) @ cs2)"
    by blast
  then have "s_resultCh s' n = Some (cs @ (cs1 @ cs2))" by simp
  then show ?case by (rule exI)
qed

theorem result_waiters_never_deleted_witness:
  "\<exists>s'. run (dispatch_two @ run_first @ [SendStep 0 1] @ finish_first) after_submissions_C = Some s'
     \<and> s_resultCh after_submissions_C ''A'' = Some [3]
     \<and> map Job (workers s') = [''B'']
     \<and> jobsWaitFor s' ''A'' = None \<and> currentJobs s' ''A'' = None
     \<and> (\<exists>cs'. s_resultCh s' ''A'' = Some ([3] @ cs'))"
proof -
  have a: "s_resultCh after_submissions_C ''A'' = Some [3]"
    by code_simp
  have "map_option (\<lambda>s. (map Job (workers s), jobsWaitFor s ''A'', currentJobs s ''A''))
      (run (dispatch_two @ run_first @ [SendStep 0 1] @ finish_first) after_submissions_C)
    = Some ([''B''], None, None)"
    by code_simp
  from map_option_run[OF this] obtain s'
    where s': "run (dispatch_two @ run_first @ [SendStep 0 1] @ finish_first) after_submissions_C = Some s'"
      "map Job (workers s') = [''B'']" "jobsWaitFor s' ''A'' = None" "currentJobs s' ''A'' = None"
    by auto
  from result_waiters_never_deleted[OF s'(1) a] have "\<exists>cs'. s_resultCh s' ''A'' = Some ([3] @ cs')" .
  with s' a show ?thesis by (intro exI[of _ s']) simp
qed

subsection \<open>The limiter\<close>











subsection \<open>The wake signal\<close>

lemma exec_loopSignal_bound:
  "exec a s = Some s' \<Longrightarrow> length (buf (loopSignal s)) \<le> cap (loopSignal s) \<Longrightarrow>
     length (buf (loopSignal s')) \<le> cap (loopSignal s')"
  by (cases a)
    (auto simp: step_defs Let_def dest!: try_send_Some recv_Some
      split: if_splits option.splits list.splits phase.splits loop_pc.splits)

lemma run_loopSignal_bound:
  "run as s = Some s' \<Longrightarrow> length (buf (loopSignal s)) \<le> cap (loopSignal s) \<Longrightarrow>
     length (buf (loopSignal s')) \<le> cap (loopSignal s')"
proof (induction as arbitrary: s)
  case Nil
  then show ?case by simp
next
  case (Cons a as)
  then obtain t where t: "exec a s = Some t" "run as t = Some s'"
    by (auto split: option.splits)
  from exec_loopSignal_bound[OF t(1) Cons.prems(2)] Cons.IH[OF t(2)] show ?case by simp
qed

text \<open>
  Claim C7 says that at most one wake is ever pending, a second request finding the
  channel full. The channel has the capacity \<open>defaultRequestLimit\<close>, so two submissions
  leave two wakes pending.
\<close>

theorem wake_not_coalesced_counterexample:
  "length (buf (loopSignal (Enqueue (plain_job ''Y'') [] (Enqueue (plain_job ''X'') [] New)))) = 2"
  by code_simp

text \<open>
  Claim C7, amended. In every state of every run from \<open>New\<close> the wake channel has capacity
  100 and holds at most 100 pending wakes; \<open>tickleLoop\<close> adds a wake while fewer than 100
  are pending and drops the request only when 100 are.
\<close>

theorem wakes_bounded_by_capacity:
  assumes "run as New = Some s"
  shows "cap (loopSignal s) = defaultRequestLimit
    \<and> length (buf (loopSignal s)) \<le> defaultRequestLimit
    \<and> tickleLoop s =
        (if length (buf (loopSignal s)) < defaultRequestLimit
         then s\<lparr>loopSignal := (loopSignal s)\<lparr>buf := buf (loopSignal s) @ [()]\<rparr>\<rparr>
         else s)"
proof -
  from run_caps[OF assms] have c: "cap (loopSignal s) = defaultRequestLimit"
    by (simp add: New_def make_chan_def)
  from run_loopSignal_bound[OF assms] have "length (buf (loopSignal s)) \<le> cap (loopSignal s)"
    by (simp add: New_def make_chan_def)
  with c show ?thesis by (simp add: tickleLoop_def try_send_def)
qed

theorem wakes_bounded_by_capacity_witness:
  "\<exists>s. run [CallEnqueue (plain_job ''X'') [], CallEnqueue (plain_job ''Y'') []] New = Some s
     \<and> length (buf (loopSignal s)) = 2
     \<and> cap (loopSignal s) = defaultRequestLimit
     \<and> length (buf (loopSignal (tickleLoop s))) = 3"
proof -
  have "map_option (\<lambda>s. length (buf (loopSignal s)))
      (run [CallEnqueue (plain_job ''X'') [], CallEnqueue (plain_job ''Y'') []] New) = Some 2"
    by code_simp
  from map_option_run[OF this] obtain s
    where s: "run [CallEnqueue (plain_job ''X'') [], CallEnqueue (plain_job ''Y'') []] New = Some s"
      "length (buf (loopSignal s)) = 2"
    by auto
  from wakes_bounded_by_capacity[OF s(1)] s(2)
  have "cap (loopSignal s) = defaultRequestLimit"
    "length (buf (loopSignal (tickleLoop s))) = 3"
    by (simp_all add: defaultRequestLimit_def)
  with s show ?thesis by blast
qed

subsection \<open>The ceiling\<close>

text \<open>
  Claim C8 says that the constructor takes the concurrency limit and that the ceiling can
  be chosen at construction. \<open>New\<close> has no argument in either iteration: the ceiling of
  the scheduler it returns is 100, not for instance 1, and \<open>Options.Limit\<close> is left zero.
\<close>

theorem ceiling_not_configurable_counterexample:
  "cap (sema New) = 100 \<and> cap (sema New) \<noteq> 1 \<and> Limit New = 0 \<and> cap (sema0 New0) = 100"
  by (simp add: New_def New0_def make_chan_def defaultRequestLimit_def)

text \<open>
  Claim C8, amended. The constructor takes no argument; the ceiling is
  \<open>defaultRequestLimit\<close>, 100, in the scheduler it returns and in every state of every
  run from it, and \<open>Options.Limit\<close> stays zero.
\<close>

theorem ceiling_fixed_at_default:
  assumes "run as New = Some s"
  shows "cap (sema s) = defaultRequestLimit \<and> defaultRequestLimit = 100 \<and> Limit s = 0
    \<and> cap (sema0 New0) = defaultRequestLimit"
  using run_caps[OF assms]
  by (simp add: New_def New0_def make_chan_def defaultRequestLimit_def)

theorem ceiling_fixed_at_default_witness:
  "\<exists>s. run both_dispatched New = Some s \<and> cap (sema s) = 100 \<and> Limit s = 0"
proof -
  have "map_option (\<lambda>s. ()) (run both_dispatched New) = Some ()"
    by code_simp
  from map_option_run[OF this] obtain s where s: "run both_dispatched New = Some s"
    by auto
  from ceiling_fixed_at_default[OF s] s show ?thesis by auto
qed

subsection \<open>The result of a job\<close>
























subsection \<open>The lock of \<open>removeJob\<close>\<close>

lemma filter_update_add:
  "i < length xs \<Longrightarrow> \<not> P (xs ! i) \<Longrightarrow> P x \<Longrightarrow>
     length (filter P (xs[i := x])) = Suc (length (filter P xs))"
proof (induction xs arbitrary: i)
  case Nil
  then show ?case by simp
next
  case (Cons a xs)
  then show ?case by (cases i) auto
qed

lemma filter_none:
  "length (filter P xs) = 0 \<Longrightarrow> w \<in> set xs \<Longrightarrow> \<not> P w"
  by (auto simp: filter_empty_conv)

lemma lock_update:
  assumes "lock_ok s" and "i < length (workers s)"
    and "holds_lock w' = holds_lock (workers s ! i)"
    and "mu s' = mu s" and "workers s' = (workers s)[i := w']"
  shows "lock_ok s'"
  using assms filter_update_same[of i "workers s" holds_lock w']
  by (simp add: lock_ok_def)

lemma lock_held:
  assumes "lock_ok s" and "i < length (workers s)" and "holds_lock (workers s ! i)"
  shows "mu s"
proof (rule ccontr)
  assume "\<not> mu s"
  with assms(1) have "length (filter holds_lock (workers s)) = 0" by (simp add: lock_ok_def)
  moreover from assms(2) have "workers s ! i \<in> set (workers s)" by simp
  ultimately have "\<not> holds_lock (workers s ! i)" by (rule filter_none)
  with assms(3) show False by simp
qed

lemma lock_worker_step:
  assumes "worker_step i s = Some s'" and ok: "lock_ok s"
  shows "lock_ok s'"
  using assms(1)
proof (cases rule: worker_step_cases)
  case Leave
  then show ?thesis
    by (intro lock_update[OF ok, of i]) (simp_all add: holds_lock_def proceed_def)
next
  case Return
  then show ?thesis
    by (intro lock_update[OF ok, of i])
      (simp_all add: holds_lock_def body_returns_def split: option.splits)
next
  case Lock
  have "length (filter holds_lock ((workers s)[i := (workers s ! i)
          \<lparr>pc := SendCh (slice_at (jobsWaitFor s) (Job (workers s ! i)))\<rparr>]))
      = Suc (length (filter holds_lock (workers s)))"
    using Lock(1,2) by (intro filter_update_add) (simp_all add: holds_lock_def)
  with ok Lock(3) show ?thesis by (simp add: lock_ok_def Lock(4))
next
  case Sent
  then show ?thesis
    by (intro lock_update[OF ok, of i]) (simp_all add: holds_lock_def)
next
  case Unlock
  from Unlock(1,2) have h: "holds_lock (workers s ! i)" by (simp add: holds_lock_def)
  from lock_held[OF ok Unlock(1) h] have m: "mu s" .
  have "Suc (length (filter holds_lock ((workers s)[i := (workers s ! i)\<lparr>pc := Replenish\<rparr>])))
      = length (filter holds_lock (workers s))"
    using Unlock(1) h by (intro filter_update_drop) (simp_all add: holds_lock_def)
  with ok m show ?thesis by (simp add: lock_ok_def Unlock(3))
next
  case (Release v c)
  then show ?thesis
    by (intro lock_update[OF ok, of i]) (simp_all add: holds_lock_def)
next
  case Wake
  then have "length (filter holds_lock (take i (workers s)))
      + length (filter holds_lock (drop (Suc i) (workers s))) = length (filter holds_lock (workers s))"
    by (intro filter_remove_nth) (simp_all add: holds_lock_def)
  with ok show ?thesis by (simp add: lock_ok_def Wake(3) tickleLoop_frame)
qed

lemma lock_send_step:
  assumes "send_step i j s = Some s'" and ok: "lock_ok s"
  shows "lock_ok s'"
  using assms(1)
proof (cases rule: send_step_cases)
  case (Ch c cs)
  from Ch(3,5) have ne: "i \<noteq> j" by (auto simp: at_select_def)
  define s1 where "s1 = s\<lparr>workers := (workers s)[i := (workers s ! i)\<lparr>pc := SendCh cs\<rparr>]\<rparr>"
  from Ch(1,3) have ok1: "lock_ok s1"
    by (intro lock_update[OF ok, of i]) (simp_all add: holds_lock_def s1_def)
  from ne Ch(2,5) show ?thesis
    by (intro lock_update[OF ok1, of j])
      (simp_all add: s1_def Ch(6) holds_lock_def recv_ch_def at_select_def)
next
  case (Res c cs)
  from Res(3,5) have ne: "i \<noteq> j" by (auto simp: at_select_def)
  define s1 where "s1 = s\<lparr>workers := (workers s)[i := (workers s ! i)\<lparr>pc := SendRes cs\<rparr>]\<rparr>"
  from Res(1,3) have ok1: "lock_ok s1"
    by (intro lock_update[OF ok, of i]) (simp_all add: holds_lock_def s1_def)
  from ne Res(2,5) show ?thesis
    by (intro lock_update[OF ok1, of j])
      (simp_all add: s1_def Res(6) holds_lock_def recv_result_def at_select_def)
qed

lemma lock_tryDequeue: "lock_ok s \<Longrightarrow> lock_ok (tryDequeue s)"
  by (cases s rule: tryDequeue_cases)
    (simp_all add: lock_ok_def holds_lock_def process_start_def)

lemma lock_exec:
  assumes "lock_ok s" and "exec a s = Some s'"
  shows "lock_ok s'"
proof (cases a)
  case (CallEnqueue r os)
  with assms show ?thesis by (auto simp: lock_ok_def Enqueue_frame split: if_splits)
next
  case (CallEnqueueWithContext c r os)
  with assms show ?thesis by (auto simp: lock_ok_def EnqueueWithContext_frame split: if_splits)
next
  case CallStart
  with assms show ?thesis by (auto simp: lock_ok_def Start_def)
next
  case CallStop
  with assms show ?thesis by (auto simp: lock_ok_def Stop_def)
next
  case (LoopStep i)
  with assms lock_tryDequeue[of s] show ?thesis
    by (auto simp: lock_ok_def elim!: loop_step_cases)
next
  case (LoopWake i)
  with assms show ?thesis
    by (auto simp: lock_ok_def loop_wake_def split: if_splits loop_pc.splits option.splits)
next
  case (LoopExit i)
  with assms show ?thesis
    by (auto simp: lock_ok_def loop_exit_def split: if_splits loop_pc.splits)
next
  case (WorkerStep i)
  with assms show ?thesis by (simp add: lock_worker_step)
next
  case (SendStep i j)
  with assms show ?thesis by (simp add: lock_send_step)
next
  case (CancelEvent i)
  with assms obtain c where "i < length (workers s)"
    "s' = s\<lparr>workers := (workers s)[i := (workers s ! i)\<lparr>ctx := c\<rparr>]\<rparr>"
    by (auto simp: cancel_event_def split: if_splits option.splits)
  then show ?thesis
    by (intro lock_update[OF assms(1), of i]) (simp_all add: holds_lock_def)
qed

lemma lock_New: "lock_ok New"
  by (simp add: lock_ok_def New_def)

lemma run_lock_ok: "run as New = Some s \<Longrightarrow> lock_ok s"
  by (rule run_invariant[where P = lock_ok, OF lock_exec lock_New])

subsection \<open>Addresses of the result channels\<close>












subsection \<open>What \<open>removeJob\<close> has delivered\<close>




lemma serving_idle: "\<not> holds_lock a \<Longrightarrow> serving m ws a"
  by (auto simp: serving_def holds_lock_def)




lemma served_idle:
  assumes "list_all (\<lambda>w. \<not> holds_lock w) (workers s')"
  shows "served_ok s'"
  using assms by (auto simp: served_ok_def list_all_iff intro: serving_idle)






















subsection \<open>A job that depends on a success\<close>




text \<open>
  Claim C5 says that whenever A finalizes with \<open>statusFailure\<close>, a job J submitted through
  \<open>Enqueue\<close> with \<open>IfSuccess(A)\<close> finalizes with \<open>statusFailure\<close>. It does not when J is
  submitted after A has been through the second loop of \<open>removeJob\<close>: A is submitted
  alone, fails and ranges over an empty list \<open>s.resultCh[A]\<close>; B is then submitted with
  \<open>IfSuccess(A)\<close> and dispatched. B is in its wait loop, has received nothing, and no
  goroutine can take a step: B waits in its \<open>select\<close> for a result that no job is left to
  send, the dispatch loop waits in its own with no wake pending and the queue empty, and
  B's context is the background context, which cannot be cancelled. B does not finalize.
\<close>

theorem dependent_submitted_late_counterexample:
  "\<exists>s t. run first_alone New = Some s \<and> run late_dependent s = Some t
     \<and> map (\<lambda>w. (Job w, pc w, result w)) (workers s) = [(''A'', SendRes [], statusFailure)]
     \<and> slice_at (s_resultCh s) ''A'' = []
     \<and> map (\<lambda>w. (Job w, ifSuccess (fnOpts w), ifFailure (fnOpts w), waitFor (fnOpts w), pc w,
           received w, invoked w, result w)) (workers t)
         = [(''B'', [''A''], [], [], Waiting, [], False, statusSuccess)]
     \<and> \<not> mu t \<and> length (queue t) = 0 \<and> buf (loopSignal t) = [] \<and> loops t = [InSelect False]
     \<and> map (\<lambda>a. blocked a t) [WorkerStep 0, SendStep 0 0, LoopStep 0, LoopWake 0, LoopExit 0, CancelEvent 0]
         = [True, True, True, True, True, True]"
proof -
  have "map_option (\<lambda>s. (map (\<lambda>w. (Job w, pc w, result w)) (workers s),
      slice_at (s_resultCh s) ''A'')) (run first_alone New)
    = Some ([(''A'', SendRes [], statusFailure)], [])"
    by code_simp
  from map_option_run[OF this] obtain s where s: "run first_alone New = Some s"
    "map (\<lambda>w. (Job w, pc w, result w)) (workers s) = [(''A'', SendRes [], statusFailure)]"
    "slice_at (s_resultCh s) ''A'' = []"
    by auto
  have "map_option (\<lambda>t. (map (\<lambda>w. (Job w, ifSuccess (fnOpts w), ifFailure (fnOpts w),
        waitFor (fnOpts w), pc w, received w, invoked w, result w)) (workers t),
      mu t, length (queue t), buf (loopSignal t), loops t,
      map (\<lambda>a. blocked a t) [WorkerStep 0, SendStep 0 0, LoopStep 0, LoopWake 0, LoopExit 0, CancelEvent 0]))
      (run (first_alone @ late_dependent) New)
    = Some ([(''B'', [''A''], [], [], Waiting, [], False, statusSuccess)],
        False, 0, [], [InSelect False], [True, True, True, True, True, True])"
    by code_simp
  from map_option_run[OF this] obtain t where t: "run (first_alone @ late_dependent) New = Some t"
    "map (\<lambda>w. (Job w, ifSuccess (fnOpts w), ifFailure (fnOpts w), waitFor (fnOpts w), pc w,
        received w, invoked w, result w)) (workers t)
      = [(''B'', [''A''], [], [], Waiting, [], False, statusSuccess)]"
    "\<not> mu t" "length (queue t) = 0" "buf (loopSignal t) = []" "loops t = [InSelect False]"
    "map (\<lambda>a. blocked a t) [WorkerStep 0, SendStep 0 0, LoopStep 0, LoopWake 0, LoopExit 0, CancelEvent 0]
      = [True, True, True, True, True, True]"
    by auto
  from t(1) s(1) have st: "run late_dependent s = Some t" by (simp add: run_append)
  from s st t(2-7) show ?thesis
    apply -
    apply (rule exI[where x = s])
    apply (rule exI[where x = t])
    apply (intro conjI)
            apply assumption+
    done
qed



subsection \<open>A job that depends on a failure\<close>

lemma unserved_update:
  assumes "unserved c s" and "i < length (workers s)"
    and "unserved_worker c w'" and "resultCh w' = resultCh (workers s ! i)"
    and "workers s' = (workers s)[i := w']" and "queue s' = queue s"
    and "s_resultCh s' = s_resultCh s" and "next_chan s' = next_chan s"
  shows "unserved c s'"
proof -
  from assms(1) have ex: "(\<exists>e \<in> set (queue s). resultCh e = c) \<or> (\<exists>w \<in> set (workers s). resultCh w = c)"
    and rest: "c < next_chan s" "\<forall>n cs. s_resultCh s n = Some cs \<longrightarrow> c \<notin> set cs"
      "list_all (unserved_worker c) (workers s)"
      "list_all (\<lambda>e. resultCh e = c \<longrightarrow> ifSuccess (fnOpts e) \<noteq> [] \<or> ifFailure (fnOpts e) \<noteq> [])
           (queue s)"
    by (simp_all add: unserved_def)
  have "\<exists>w \<in> set (workers s). resultCh w = c \<Longrightarrow> \<exists>w \<in> set ((workers s)[i := w']). resultCh w = c"
    by (rule ex_update) (simp_all add: assms(4))
  with ex have ex': "(\<exists>e \<in> set (queue s). resultCh e = c)
      \<or> (\<exists>w \<in> set ((workers s)[i := w']). resultCh w = c)"
    by blast
  from rest(3) assms(3) have "list_all (unserved_worker c) ((workers s)[i := w'])"
    by (rule list_all_update)
  with rest ex' show ?thesis
    unfolding unserved_def assms(5-8) by blast
qed

lemma unserved_nth:
  "unserved c s \<Longrightarrow> i < length (workers s) \<Longrightarrow> unserved_worker c (workers s ! i)"
  by (simp add: unserved_def list_all_nth)

lemma unserved_worker_step:
  assumes "worker_step i s = Some s'" and ok: "unserved c s"
  shows "unserved c s'"
  using assms(1)
proof (cases rule: worker_step_cases)
  case Leave
  with unserved_nth[OF ok Leave(1)] show ?thesis
    by (intro unserved_update[OF ok, of i])
      (auto simp: unserved_worker_def proceed_def loop_done_def)
next
  case Return
  with unserved_nth[OF ok Return(1)] show ?thesis
    by (intro unserved_update[OF ok, of i])
      (auto simp: unserved_worker_def body_returns_def split: option.splits)
next
  case Lock
  with unserved_nth[OF ok Lock(1)] show ?thesis
    by (intro unserved_update[OF ok, of i]) (auto simp: unserved_worker_def)
next
  case Sent
  from ok have "c \<notin> set (slice_at (s_resultCh s) (Job (workers s ! i)))"
    by (auto simp: unserved_def dest: slice_at_mem)
  with Sent unserved_nth[OF ok Sent(1)] show ?thesis
    by (intro unserved_update[OF ok, of i]) (auto simp: unserved_worker_def)
next
  case Unlock
  with unserved_nth[OF ok Unlock(1)] show ?thesis
    by (intro unserved_update[OF ok, of i]) (auto simp: unserved_worker_def)
next
  case (Release v c')
  with unserved_nth[OF ok Release(1)] show ?thesis
    by (intro unserved_update[OF ok, of i]) (auto simp: unserved_worker_def)
next
  case Wake
  from unserved_nth[OF ok Wake(1)] Wake(2) have ne: "resultCh (workers s ! i) \<noteq> c"
    by (auto simp: unserved_worker_def)
  from ok have "(\<exists>e \<in> set (queue s). resultCh e = c) \<or> (\<exists>w \<in> set (workers s). resultCh w = c)"
    by (simp add: unserved_def)
  with ex_remove_nth[of "workers s" "\<lambda>w. resultCh w = c" i] Wake(1) ne
  have "(\<exists>e \<in> set (queue s). resultCh e = c)
      \<or> (\<exists>w \<in> set (take i (workers s) @ drop (Suc i) (workers s)). resultCh w = c)"
    by blast
  with ok list_all_remove_nth[of "unserved_worker c" "workers s" i] show ?thesis
    by (simp add: unserved_def Wake(3) tickleLoop_frame del: list_all_append set_append)
qed

lemma unserved_send_step:
  assumes "send_step i j s = Some s'" and ok: "unserved c s"
  shows "unserved c s'"
  using assms(1)
proof (cases rule: send_step_cases)
  case (Ch c' cs)
  from Ch(3,5) have ne: "i \<noteq> j" by (auto simp: at_select_def)
  define s1 where "s1 = s\<lparr>workers := (workers s)[i := (workers s ! i)\<lparr>pc := SendCh cs\<rparr>]\<rparr>"
  from unserved_nth[OF ok Ch(1)] Ch(3)
  have "unserved_worker c ((workers s ! i)\<lparr>pc := SendCh cs\<rparr>)"
    by (simp add: unserved_worker_def)
  then have ok1: "unserved c s1"
    by (rule unserved_update[OF ok Ch(1)]) (simp_all add: s1_def)
  from ne Ch(2) have j: "j < length (workers s1)" "workers s1 ! j = workers s ! j"
    by (simp_all add: s1_def)
  from unserved_nth[OF ok Ch(2)] Ch(5)
  have "unserved_worker c (recv_ch (workers s ! j))"
    by (simp add: unserved_worker_def recv_ch_def at_select_def)
  then show ?thesis
    by (rule unserved_update[OF ok1 j(1)]) (simp_all add: ne s1_def Ch(6) recv_ch_def)
next
  case (Res c' cs)
  from Res(3,5) have ne: "i \<noteq> j" by (auto simp: at_select_def)
  define s1 where "s1 = s\<lparr>workers := (workers s)[i := (workers s ! i)\<lparr>pc := SendRes cs\<rparr>]\<rparr>"
  define b where "b = recv_result (Job (workers s ! i)) (result (workers s ! i)) (workers s ! j)"
  from unserved_nth[OF ok Res(1)] Res(3) have c': "c \<noteq> c'" "c \<notin> set cs"
    by (auto simp: unserved_worker_def)
  with unserved_nth[OF ok Res(1)] Res(3)
  have "unserved_worker c ((workers s ! i)\<lparr>pc := SendRes cs\<rparr>)"
    by (simp add: unserved_worker_def)
  then have ok1: "unserved c s1"
    by (rule unserved_update[OF ok Res(1)]) (simp_all add: s1_def)
  from ne Res(2) have j: "j < length (workers s1)" "workers s1 ! j = workers s ! j"
    by (simp_all add: s1_def)
  from Res(5) have pcb: "pc b = Waiting" "resultCh b = resultCh (workers s ! j)"
    by (simp_all add: b_def recv_result_def at_select_def)
  with c' Res(4) have "unserved_worker c b"
    by (simp add: unserved_worker_def)
  then show ?thesis
    by (rule unserved_update[OF ok1 j(1)]) (simp_all add: ne s1_def Res(6) pcb b_def[symmetric])
qed

lemma tally_zero: "int (length xs) + int (length ys) = 0 \<longleftrightarrow> xs = [] \<and> ys = []"
  by (cases xs; cases ys) auto

lemma unserved_tryDequeue: "unserved c s \<Longrightarrow> unserved c (tryDequeue s)"
proof (cases s rule: tryDequeue_cases)
  case Idle
  assume "unserved c s"
  with Idle show ?thesis by simp
next
  case (Dispatch request rest c')
  assume ok: "unserved c s"
  from ok Dispatch(1) have "unserved_worker c (process_start request)"
    by (auto simp: unserved_def unserved_worker_def process_start_def tally_zero)
  moreover from ok Dispatch(1)
  have "(\<exists>e \<in> set rest. resultCh e = c)
    \<or> (\<exists>w \<in> set (workers s @ [process_start request]). resultCh w = c)"
    by (auto simp: unserved_def process_start_def)
  ultimately show ?thesis
    using ok Dispatch(1) unfolding Dispatch(3) unserved_def by simp
qed

lemma unserved_Enqueue:
  assumes ok: "unserved c s"
  shows "unserved c (Enqueue r os s)"
proof -
  define ev where "ev = newEvent (next_chan s) Background r os"
  have ev: "resultCh ev = Suc (next_chan s)" by (simp add: ev_def newEvent_def)
  from ok have lt: "c < next_chan s" by (simp add: unserved_def)
  have "c \<notin> set cs" if "register (ifSuccess (fnOpts ev)) (resultCh ev) (s_resultCh s) n = Some cs"
    for n cs
  proof
    assume "c \<in> set cs"
    from register_mem[OF that this] ok lt ev show False by (auto simp: unserved_def)
  qed
  moreover have "s_resultCh (Enqueue r os s) = register (ifSuccess (fnOpts ev)) (resultCh ev) (s_resultCh s)"
    by (simp add: Enqueue_def Let_def tickleLoop_frame ev_def)
  ultimately have m: "\<forall>n cs. s_resultCh (Enqueue r os s) n = Some cs \<longrightarrow> c \<notin> set cs"
    by simp
  from ok lt ev show ?thesis
    unfolding unserved_def using m by (auto simp: Enqueue_frame ev_def[symmetric])
qed

lemma unserved_EnqueueWithContext: "unserved c s \<Longrightarrow> unserved c (EnqueueWithContext c0 r os s)"
  by (auto simp: unserved_def EnqueueWithContext_frame newEvent_def)

lemma unserved_exec:
  assumes "unserved c s" and "exec a s = Some s'"
  shows "unserved c s'"
proof (cases a)
  case (CallEnqueue r os)
  with assms show ?thesis by (auto simp: unserved_Enqueue split: if_splits)
next
  case (CallEnqueueWithContext c0 r os)
  with assms show ?thesis by (auto simp: unserved_EnqueueWithContext split: if_splits)
next
  case CallStart
  with assms show ?thesis by (auto simp: unserved_def Start_def)
next
  case CallStop
  with assms show ?thesis by (auto simp: unserved_def Stop_def)
next
  case (LoopStep i)
  with assms unserved_tryDequeue[of c s] show ?thesis
    by (auto simp: unserved_def elim!: loop_step_cases)
next
  case (LoopWake i)
  with assms show ?thesis
    by (auto simp: unserved_def loop_wake_def split: if_splits loop_pc.splits option.splits)
next
  case (LoopExit i)
  with assms show ?thesis
    by (auto simp: unserved_def loop_exit_def split: if_splits loop_pc.splits)
next
  case (WorkerStep i)
  with assms show ?thesis by (simp add: unserved_worker_step)
next
  case (SendStep i j)
  with assms show ?thesis by (simp add: unserved_send_step)
next
  case (CancelEvent i)
  with assms obtain c0 where i: "i < length (workers s)"
    and s': "s' = s\<lparr>workers := (workers s)[i := (workers s ! i)\<lparr>ctx := c0\<rparr>]\<rparr>"
    by (auto simp: cancel_event_def split: if_splits option.splits)
  from unserved_nth[OF assms(1) i] show ?thesis
    by (intro unserved_update[OF assms(1) i, where w' = "(workers s ! i)\<lparr>ctx := c0\<rparr>"])
      (auto simp: unserved_worker_def s')
qed

lemma unserved_scenario:
  "unserved 3 (Enqueue rb [IfFailure (A # names)] (Enqueue ra [] New))"
  by (simp add: unserved_def Enqueue_def Let_def tickleLoop_frame newEvent_def New_def
      register_def zero_eventOptions_def)

text \<open>
  Claim C2 says that when A's body returns an error and B is submitted with
  \<open>IfFailure(A)\<close>, the body of B is invoked once A has finalized. In the code B's result
  channel (address 3) is registered nowhere, so nothing is ever sent on it: whatever the
  bodies of A and B are and however the run goes on after the two submissions, B stays
  queued or in its wait loop, and its body is never invoked.
\<close>

theorem failure_dependent_never_runs:
  assumes "run ([CallEnqueue ra [], CallEnqueue rb [IfFailure (A # names)]] @ as) New = Some s"
  shows "((\<exists>e \<in> set (queue s). resultCh e = 3) \<or> (\<exists>w \<in> set (workers s). resultCh w = 3))
    \<and> (\<forall>w \<in> set (workers s). resultCh w = 3 \<longrightarrow> pc w = Waiting \<and> \<not> invoked w)"
proof -
  have m: "\<not> mu New" "\<not> mu (Enqueue ra [] New)"
    by (simp_all add: Enqueue_frame) (simp_all add: New_def)
  with assms have "run as (Enqueue rb [IfFailure (A # names)] (Enqueue ra [] New)) = Some s"
    by simp
  with unserved_exec unserved_scenario have "unserved 3 s"
    by (rule run_invariant[where P = "unserved 3"])
  then show ?thesis
    by (auto simp: unserved_def unserved_worker_def list_all_iff)
qed

theorem failure_dependent_never_runs_witness:
  "\<exists>s. run scenario_D New = Some s
     \<and> map (\<lambda>w. (Job w, resultCh w, pc w, TotalEvents w, received w)) (workers s)
         = [(''B'', 3, Waiting, 1, [])]
     \<and> map Job (queue s) = [] \<and> currentJobs s ''A'' = None \<and> s_resultCh s ''A'' = None
     \<and> (\<exists>w \<in> set (workers s). resultCh w = 3)
     \<and> (\<forall>w \<in> set (workers s). resultCh w = 3 \<longrightarrow> pc w = Waiting \<and> \<not> invoked w)"
proof -
  have "map_option (\<lambda>s. (map (\<lambda>w. (Job w, resultCh w, pc w, TotalEvents w, received w)) (workers s),
      map Job (queue s), currentJobs s ''A'', s_resultCh s ''A'')) (run scenario_D New)
    = Some ([(''B'', 3, Waiting, 1, [])], [], None, None)"
    by code_simp
  from map_option_run[OF this] obtain s where s: "run scenario_D New = Some s"
    "map (\<lambda>w. (Job w, resultCh w, pc w, TotalEvents w, received w)) (workers s)
         = [(''B'', 3, Waiting, 1, [])]"
    "map Job (queue s) = []" "currentJobs s ''A'' = None" "s_resultCh s ''A'' = None"
    by auto
  from s(1) have "run ([CallEnqueue (failing_job ''A'') [],
      CallEnqueue (plain_job ''B'') [IfFailure (''A'' # [])]]
      @ (dispatch_two @ run_first @ finish_first)) New = Some s"
    by (simp add: scenario_D_def)
  from failure_dependent_never_runs[OF this] s show ?thesis by auto
qed

subsection \<open>Shutdown\<close>

lemma same_obs_tickleLoop: "same_obs s t \<Longrightarrow> same_obs (tickleLoop s) (tickleLoop t)"
  by (simp add: same_obs_def tickleLoop_def split: option.splits)

lemma same_obs_fields:
  assumes "same_obs s t"
  shows "mu s = mu t" "ctx_Done (s_ctx s) = ctx_Done (s_ctx t)" "queue s = queue t"
    "Limit s = Limit t" "sema s = sema t" "loopSignal s = loopSignal t"
    "currentJobs s = currentJobs t" "jobsWaitFor s = jobsWaitFor t"
    "s_resultCh s = s_resultCh t" "loops s = loops t" "workers s = workers t"
    "next_chan s = next_chan t"
  using assms by (simp_all add: same_obs_def)

lemma same_obs_Enqueue: "same_obs s t \<Longrightarrow> same_obs (Enqueue r os s) (Enqueue r os t)"
  unfolding Enqueue_def Let_def
  by (rule same_obs_tickleLoop) (simp add: same_obs_def)

lemma same_obs_EnqueueWithContext:
  "same_obs s t \<Longrightarrow> same_obs (EnqueueWithContext c r os s) (EnqueueWithContext c r os t)"
  unfolding EnqueueWithContext_def Let_def
  by (rule same_obs_tickleLoop) (simp add: same_obs_def)

lemma same_obs_tryDequeue: "same_obs s t \<Longrightarrow> same_obs (tryDequeue s) (tryDequeue t)"
  by (simp add: same_obs_def tryDequeue_def split: list.splits option.splits)

lemma same_obs_loop_step:
  assumes "same_obs s t"
  shows "rel_option same_obs (loop_step i s) (loop_step i t)"
proof -
  note e = same_obs_fields[OF assms]
  from same_obs_tryDequeue[OF assms]
  have "same_obs ((tryDequeue s)\<lparr>loops := (loops t)[i := LoopTop]\<rparr>)
      ((tryDequeue t)\<lparr>loops := (loops t)[i := LoopTop]\<rparr>)"
    by (simp add: same_obs_def)
  with assms show ?thesis
    by (simp add: loop_step_def e split: loop_pc.splits) (simp add: same_obs_def)
qed

lemma same_obs_loop_wake:
  assumes "same_obs s t"
  shows "rel_option same_obs (loop_wake i s) (loop_wake i t)"
  using assms
  by (simp add: loop_wake_def same_obs_fields[OF assms] split: loop_pc.splits option.splits)
    (simp add: same_obs_def)

lemma same_obs_loop_exit:
  assumes "same_obs s t"
  shows "rel_option same_obs (loop_exit i s) (loop_exit i t)"
  using assms
  by (simp add: loop_exit_def same_obs_fields[OF assms] split: loop_pc.splits)
    (simp add: same_obs_def)

lemma same_obs_worker_step:
  assumes "same_obs s t"
  shows "rel_option same_obs (worker_step i s) (worker_step i t)"
proof -
  note e = same_obs_fields[OF assms]
  have "same_obs (tickleLoop (s\<lparr>workers := take i (workers t) @ drop (Suc i) (workers t)\<rparr>))
      (tickleLoop (t\<lparr>workers := take i (workers t) @ drop (Suc i) (workers t)\<rparr>))"
    using assms by (intro same_obs_tickleLoop) (simp add: same_obs_def)
  with assms show ?thesis
    by (simp add: worker_step_def Let_def e split: phase.splits list.splits option.splits)
      (simp add: same_obs_def)
qed

lemma same_obs_send_step:
  assumes "same_obs s t"
  shows "rel_option same_obs (send_step i j s) (send_step i j t)"
  using assms
  by (simp add: send_step_def Let_def same_obs_fields[OF assms] split: phase.splits list.splits)
    (simp add: same_obs_def)

lemma same_obs_cancel_event:
  assumes "same_obs s t"
  shows "rel_option same_obs (cancel_event i s) (cancel_event i t)"
  using assms
  by (simp add: cancel_event_def same_obs_fields[OF assms] split: option.splits)
    (simp add: same_obs_def)

lemma same_obs_exec:
  assumes "same_obs s t"
  shows "rel_option same_obs (exec a s) (exec a t)"
proof (cases a)
  case (CallEnqueue r os)
  with assms show ?thesis by (simp add: same_obs_Enqueue same_obs_fields[OF assms])
next
  case (CallEnqueueWithContext c r os)
  with assms show ?thesis by (simp add: same_obs_EnqueueWithContext same_obs_fields[OF assms])
next
  case CallStart
  with assms show ?thesis by (simp add: Start_def same_obs_def)
next
  case CallStop
  with assms show ?thesis by (simp add: Stop_def same_obs_def)
next
  case (LoopStep i)
  with assms show ?thesis by (simp add: same_obs_loop_step)
next
  case (LoopWake i)
  with assms show ?thesis by (simp add: same_obs_loop_wake)
next
  case (LoopExit i)
  with assms show ?thesis by (simp add: same_obs_loop_exit)
next
  case (WorkerStep i)
  with assms show ?thesis by (simp add: same_obs_worker_step)
next
  case (SendStep i j)
  with assms show ?thesis by (simp add: same_obs_send_step)
next
  case (CancelEvent i)
  with assms show ?thesis by (simp add: same_obs_cancel_event)
qed

lemma same_obs_run: "same_obs s t \<Longrightarrow> rel_option same_obs (run as s) (run as t)"
proof (induction as arbitrary: s t)
  case Nil
  then show ?case by simp
next
  case (Cons a as)
  from same_obs_exec[OF Cons.prems, of a] show ?case
    by (cases "exec a s"; cases "exec a t") (simp_all add: Cons.IH)
qed

lemma tryDequeue_ctx: "s_ctx (tryDequeue s) = s_ctx s"
  by (cases s rule: tryDequeue_cases) simp_all

lemma exec_stays_done:
  assumes "ctx_Done (s_ctx s)" and "exec a s = Some s'"
  shows "ctx_Done (s_ctx s')"
proof (cases a)
  case (WorkerStep i)
  with assms(2) have "worker_step i s = Some s'" by simp
  then have "s_ctx s' = s_ctx s"
    by (cases rule: worker_step_cases) (simp_all add: tickleLoop_frame)
  with assms(1) show ?thesis by simp
next
  case (SendStep i j)
  with assms(2) have "send_step i j s = Some s'" by simp
  then have "s_ctx s' = s_ctx s"
    by (cases rule: send_step_cases) simp_all
  with assms(1) show ?thesis by simp
next
  case (LoopStep i)
  with assms show ?thesis by (auto simp: tryDequeue_ctx elim!: loop_step_cases)
next
  case (LoopWake i)
  with assms show ?thesis
    by (auto simp: loop_wake_def split: if_splits loop_pc.splits option.splits)
next
  case (LoopExit i)
  with assms show ?thesis by (auto simp: loop_exit_def split: if_splits loop_pc.splits)
next
  case (CancelEvent i)
  with assms show ?thesis by (auto simp: cancel_event_def split: if_splits option.splits)
next
  case (CallEnqueue r os)
  with assms show ?thesis by (auto simp: Enqueue_frame split: if_splits)
next
  case (CallEnqueueWithContext c r os)
  with assms show ?thesis by (auto simp: EnqueueWithContext_frame split: if_splits)
next
  case CallStart
  with assms show ?thesis by (auto simp: Start_def)
next
  case CallStop
  with assms show ?thesis by (auto simp: Stop_def)
qed

lemma run_stays_done:
  "run as s = Some s' \<Longrightarrow> ctx_Done (s_ctx s) \<Longrightarrow> ctx_Done (s_ctx s')"
proof (induction as arbitrary: s)
  case Nil
  then show ?case by simp
next
  case (Cons a as)
  then obtain t where t: "exec a s = Some t" "run as t = Some s'"
    by (auto split: option.splits)
  from exec_stays_done[OF Cons.prems(2) t(1)] Cons.IH[OF t(2)] show ?case by simp
qed

text \<open>
  Claim C9. \<open>Stop\<close> is idempotent: in any state \<open>t\<close> reached after a first \<open>Stop\<close>, a
  second \<open>Stop\<close> changes nothing that can be observed (only which cancelled context
  \<open>s.ctx\<close> is), and every further run goes from \<open>Stop t\<close> exactly as it goes from \<open>t\<close>:
  the same steps can be taken and they lead to states with the same observations.
\<close>

theorem Stop_idempotent:
  assumes "run as (Stop s) = Some t"
  shows "same_obs (Stop t) t \<and> rel_option same_obs (run bs (Stop t)) (run bs t)"
proof -
  have "ctx_Done (s_ctx (Stop s))" by (simp add: Stop_def)
  with assms have "ctx_Done (s_ctx t)"
    by (rule run_stays_done)
  then have "same_obs (Stop t) t" by (simp add: same_obs_def Stop_def)
  with same_obs_run show ?thesis by blast
qed

theorem Stop_idempotent_witness:
  "\<exists>t. run [CallStart, LoopStep 0] (Stop New) = Some t
     \<and> loops t = [InSelect True]
     \<and> same_obs (Stop t) t
     \<and> rel_option same_obs (run [LoopExit 0, CallStart] (Stop t)) (run [LoopExit 0, CallStart] t)"
proof -
  have "map_option loops (run [CallStart, LoopStep 0] (Stop New)) = Some [InSelect True]"
    by code_simp
  from map_option_run[OF this] obtain t where t: "run [CallStart, LoopStep 0] (Stop New) = Some t"
    "loops t = [InSelect True]"
    by auto
  from Stop_idempotent[OF t(1), of "[LoopExit 0, CallStart]"] t show ?thesis by blast
qed

end
